theory Spec2Isabelle
  imports Main "HOL-Library.Word"
begin

section \<open>Go values\<close>

text \<open>
  Go's \<open>uint\<close>, \<open>int\<close> and \<open>int64\<close> are 64-bit words here (a 64-bit platform), \<open>int32\<close> a
  32-bit word. Arithmetic on them wraps, as Go's does. The conversions \<open>int(afrom)\<close> and
  \<open>int64(afrom)\<close> of an unsigned value keep the 64 bits, so they are the identity on the
  word; signed comparisons read the word through \<open>sint\<close> (\<open><s\<close>, \<open>\<le>s\<close>); \<open>int32(x)\<close>
  keeps the low 32 bits (\<open>ucast\<close>). An event is an opaque byte payload; a nil byte slice
  and an empty one are both the empty list.
\<close>

type_synonym go_uint = "64 word"
type_synonym go_int = "64 word"
type_synonym int64 = "64 word"
type_synonym int32 = "32 word"
type_synonym event = "8 word list"

datatype error =
  EngineError string
  | ErrorString string
  | InvalidRange string
  | EOI

datatype 'a outcome = Done 'a | Blocked | Crashed

section \<open>The storage engine\<close>

text \<open>
  The list engine (package \<open>ledis\<close>) is an external library. Its state is one list of events
  per key. Its list commands are modelled after their documented behaviour, which is that
  of the Redis commands of the same names: indices are zero-based, both ends of a range
  are inclusive, a negative index counts from the end of the list, and a range that
  reaches past the end of the list is cut there.

  Every command can fail. \<open>faults\<close> says which call fails, by the number of the call
  (\<open>calls\<close> counts the commands issued so far), and with which message; a failed command
  changes nothing but the count.
\<close>

record ledis_db =
  lists :: "string \<Rightarrow> event list"
  faults :: "nat \<Rightarrow> string option"
  calls :: nat

definition fault :: "ledis_db \<Rightarrow> string option" where
  "fault d = faults d (calls d)"

definition tick :: "ledis_db \<Rightarrow> ledis_db" where
  "tick d = d\<lparr>calls := Suc (calls d)\<rparr>"

definition abs_index :: "int \<Rightarrow> int \<Rightarrow> int" where
  "abs_index n i = (if i < 0 then n + i else i)"

definition keep_range :: "event list \<Rightarrow> int \<Rightarrow> int \<Rightarrow> event list" where
  "keep_range xs start stop =
     (let n = int (length xs);
          start = abs_index n start;
          stop = abs_index n stop;
          start = (if start < 0 then 0 else start)
      in if n \<le> start \<or> stop < start then []
         else let stop = (if n \<le> stop then n - 1 else stop)
              in take (nat (stop - start + 1)) (drop (nat start) xs))"

definition LLen :: "ledis_db \<Rightarrow> string \<Rightarrow> (error + int64) \<times> ledis_db" where
  "LLen d k =
     (case fault d of
        Some m \<Rightarrow> (Inl (EngineError m), tick d)
      | None \<Rightarrow> (Inr (of_nat (length (lists d k))), tick d))"

definition LIndex :: "ledis_db \<Rightarrow> string \<Rightarrow> int32 \<Rightarrow> (error + event) \<times> ledis_db" where
  "LIndex d k index =
     (case fault d of
        Some m \<Rightarrow> (Inl (EngineError m), tick d)
      | None \<Rightarrow>
          (let xs = lists d k; i = abs_index (int (length xs)) (sint index)
           in (Inr (if 0 \<le> i \<and> i < int (length xs) then xs ! nat i else []), tick d)))"

definition LRange :: "ledis_db \<Rightarrow> string \<Rightarrow> int32 \<Rightarrow> int32 \<Rightarrow> (error + event list) \<times> ledis_db" where
  "LRange d k start stop =
     (case fault d of
        Some m \<Rightarrow> (Inl (EngineError m), tick d)
      | None \<Rightarrow> (Inr (keep_range (lists d k) (sint start) (sint stop)), tick d))"

definition LTrim :: "ledis_db \<Rightarrow> string \<Rightarrow> int64 \<Rightarrow> int64 \<Rightarrow> error option \<times> ledis_db" where
  "LTrim d k start stop =
     (case fault d of
        Some m \<Rightarrow> (Some (EngineError m), tick d)
      | None \<Rightarrow>
          (None, tick (d\<lparr>lists := (lists d)(k := keep_range (lists d k) (sint start) (sint stop))\<rparr>)))"

definition LClear :: "ledis_db \<Rightarrow> string \<Rightarrow> (error + int64) \<times> ledis_db" where
  "LClear d k =
     (case fault d of
        Some m \<Rightarrow> (Inl (EngineError m), tick d)
      | None \<Rightarrow> (Inr (of_nat (length (lists d k))), tick (d\<lparr>lists := (lists d)(k := [])\<rparr>)))"

definition RPush :: "ledis_db \<Rightarrow> string \<Rightarrow> event list \<Rightarrow> (error + int64) \<times> ledis_db" where
  "RPush d k args =
     (case fault d of
        Some m \<Rightarrow> (Inl (EngineError m), tick d)
      | None \<Rightarrow>
          (Inr (of_nat (length (lists d k @ args))),
           tick (d\<lparr>lists := (lists d)(k := lists d k @ args)\<rparr>)))"

section \<open>The reader/writer lock\<close>

text \<open>
  \<open>sync.RWMutex\<close>, seen by one thread of control: \<open>RLock\<close> and \<open>Lock\<close> return the new lock
  state, or \<open>None\<close> where the call cannot return because nobody else will release the
  lock; \<open>RUnlock\<close> of a lock with no reader is a fatal runtime error (\<open>None\<close>).
\<close>

record rwmutex =
  readers :: nat
  writer :: bool

definition RLock :: "rwmutex \<Rightarrow> rwmutex option" where
  "RLock m = (if writer m then None else Some (m\<lparr>readers := Suc (readers m)\<rparr>))"

definition RUnlock :: "rwmutex \<Rightarrow> rwmutex option" where
  "RUnlock m = (if readers m = 0 then None else Some (m\<lparr>readers := readers m - 1\<rparr>))"

definition Lock :: "rwmutex \<Rightarrow> rwmutex option" where
  "Lock m = (if readers m = 0 \<and> \<not> writer m then Some (m\<lparr>writer := True\<rparr>) else None)"

definition Unlock :: "rwmutex \<Rightarrow> rwmutex" where
  "Unlock m = m\<lparr>writer := False\<rparr>"

section \<open>Stream handles: Read, Next and Del\<close>

text \<open>
  The methods of one \<open>ledisStreamObj\<close> run on the storage engine it points to (\<open>db\<close>), its
  own lock (\<open>delLock\<close>) and the process log (\<open>logged\<close>); its \<open>key\<close> is a parameter.
\<close>

record stream_state =
  db :: ledis_db
  delLock :: rwmutex
  logged :: "string list"

record ledisListStream =
  skey :: string
  num :: int32
  l :: int32

text \<open>
  Modelled from the spec: \<open>stream.Empty()\<close> and the stream interface are in package \<open>stream\<close>,
  not among the sources; the spec calls what \<open>stream.Empty()\<close> returns "an
  immediately-exhausted empty sequence". \<open>Empty\<close> is that sequence, \<open>ListStream\<close> the
  engine-backed iterator.
\<close>

datatype stream = Empty | ListStream ledisListStream

text \<open>
  Modelled from the spec: \<open>checkRange\<close> is not among the sources; the spec says that after
  normalization the range check "fails with \<open>InvalidRange\<close> unless
  \<open>0 <= from' <= to' <= length\<close>". Its last argument is the caller's name.
\<close>

definition checkRange :: "go_int \<Rightarrow> go_int \<Rightarrow> go_int \<Rightarrow> string \<Rightarrow> error option" where
  "checkRange from to len who =
     (if 0 \<le>s from \<and> from \<le>s to \<and> to \<le>s len then None else Some (InvalidRange who))"

text \<open>The two \<open>if\<close> statements that Read and Del share: a negative bound counts from the end.\<close>

definition normalize :: "int64 \<Rightarrow> int64 \<Rightarrow> int64 \<Rightarrow> int64 \<times> int64" where
  "normalize len from to =
     (let to = (if to <s 0 then len + 1 + to else to);
          from = (if from <s 0 then len + 1 + from else from)
      in (from, to))"

definition Read :: "string \<Rightarrow> go_uint \<Rightarrow> go_int \<Rightarrow> stream_state \<Rightarrow> ((error + stream) \<times> stream_state) outcome" where
  "Read key afrom to s =
     (let from = afrom
      in if from = to then Done (Inr Empty, s)
         else case RLock (delLock s) of
           None \<Rightarrow> Blocked
         | Some lk \<Rightarrow>
             (case LLen (db s) key of
                (Inl err, d) \<Rightarrow> Done (Inl err, s\<lparr>db := d, delLock := lk\<rparr>)
              | (Inr al, d) \<Rightarrow>
                  (let s = s\<lparr>db := d, delLock := lk\<rparr>;
                       (from, to) = normalize al from to
                   in if from = to then Done (Inr Empty, s)
                      else case checkRange from to al ''ledisStreamObj.Read'' of
                        Some err \<Rightarrow> Done (Inl err, s)
                      | None \<Rightarrow>
                          Done (Inr (ListStream \<lparr>skey = key, num = ucast from, l = ucast to\<rparr>), s))))"

definition Next :: "ledisListStream \<Rightarrow> stream_state \<Rightarrow> ((error + event) \<times> ledisListStream \<times> stream_state) outcome" where
  "Next self s =
     (if l self \<le>s num self then
        (case RUnlock (delLock s) of
           None \<Rightarrow> Crashed
         | Some lk \<Rightarrow> Done (Inl EOI, self, s\<lparr>delLock := lk\<rparr>))
      else case LIndex (db s) (skey self) (num self) of
        (Inl err, d) \<Rightarrow>
          (case RUnlock (delLock s) of
             None \<Rightarrow> Crashed
           | Some lk \<Rightarrow> Done (Inl err, self, s\<lparr>db := d, delLock := lk\<rparr>))
      | (Inr res, d) \<Rightarrow> Done (Inr res, self\<lparr>num := num self + 1\<rparr>, s\<lparr>db := d\<rparr>))"

text \<open>The two identical \<open>LClear\<close> blocks of Del.\<close>

definition Del_clear :: "string \<Rightarrow> stream_state \<Rightarrow> (bool \<times> error option) \<times> stream_state" where
  "Del_clear key s =
     (case LClear (db s) key of
        (Inl err, d) \<Rightarrow> ((False, Some err), s\<lparr>db := d\<rparr>)
      | (Inr cnt, d) \<Rightarrow> ((cnt \<noteq> 0, None), s\<lparr>db := d\<rparr>))"

text \<open>The general case of Del: check the range, read the tail, trim to the prefix, push the tail back.\<close>

definition Del_middle :: "string \<Rightarrow> int64 \<Rightarrow> int64 \<Rightarrow> int64 \<Rightarrow> stream_state \<Rightarrow> (bool \<times> error option) \<times> stream_state" where
  "Del_middle key from to len s =
     (case checkRange from to len ''ledisStreamObj.Del'' of
        Some err \<Rightarrow> ((False, Some err), s)
      | None \<Rightarrow>
          (case LRange (db s) key (ucast to) (ucast len) of
             (Inl err, d) \<Rightarrow> ((False, Some err), s\<lparr>db := d\<rparr>)
           | (Inr rest, d) \<Rightarrow>
               (case LTrim d key 0 (from - 1) of
                  (Some err, d) \<Rightarrow> ((False, Some err), s\<lparr>db := d\<rparr>)
                | (None, d) \<Rightarrow>
                    (case RPush d key rest of
                       (Inl err, d) \<Rightarrow>
                         ((False, Some err),
                          s\<lparr>db := d,
                            logged := logged s @
                              [''ledisStreamObj.Del: WARNING: RPush failed, but Trim wasn't rolled back. Lost the data.'']\<rparr>)
                     | (Inr n, d) \<Rightarrow> ((True, None), s\<lparr>db := d\<rparr>)))))"

text \<open>The body of Del between \<open>Lock\<close> and the deferred \<open>Unlock\<close>.\<close>

definition Del_locked :: "string \<Rightarrow> int64 \<Rightarrow> int64 \<Rightarrow> stream_state \<Rightarrow> (bool \<times> error option) \<times> stream_state" where
  "Del_locked key from to s =
     (if from = 0 \<and> to = - 1 then Del_clear key s
      else case LLen (db s) key of
        (Inl err, d) \<Rightarrow> ((False, Some err), s\<lparr>db := d\<rparr>)
      | (Inr len, d) \<Rightarrow>
          (let s = s\<lparr>db := d\<rparr>;
               (from, to) = normalize len from to
           in if from = 0 \<and> to = len then Del_clear key s
              else if from = 0 then
                (case LTrim (db s) key (to - 1) len of
                   (err, d) \<Rightarrow> ((err = None, err), s\<lparr>db := d\<rparr>))
              else if to = len then
                (case LTrim (db s) key 0 (from - 1) of
                   (err, d) \<Rightarrow> ((err = None, err), s\<lparr>db := d\<rparr>))
              else Del_middle key from to len s))"

definition Del :: "string \<Rightarrow> go_uint \<Rightarrow> go_int \<Rightarrow> stream_state \<Rightarrow> ((bool \<times> error option) \<times> stream_state) outcome" where
  "Del key afrom ato s =
     (let from = afrom; to = ato
      in if from = to then Done ((True, None), s)
         else case Lock (delLock s) of
           None \<Rightarrow> Blocked
         | Some lk \<Rightarrow>
             (case Del_locked key from to (s\<lparr>delLock := lk\<rparr>) of
                (r, s') \<Rightarrow> Done (r, s'\<lparr>delLock := Unlock (delLock s')\<rparr>)))"


text \<open>\<open>Len\<close>: the engine's length, converted to \<open>uint\<close>.\<close>

definition Len :: "string \<Rightarrow> stream_state \<Rightarrow> (error + go_uint) \<times> stream_state" where
  "Len key s =
     (case LLen (db s) key of
        (Inl err, d) \<Rightarrow> (Inl err, s\<lparr>db := d\<rparr>)
      | (Inr len, d) \<Rightarrow> (Inr len, s\<lparr>db := d\<rparr>))"

section \<open>Consuming a stream\<close>

text \<open>
  A caller that drives an iterator to exhaustion: it calls \<open>Next\<close> until an error comes back
  (\<open>EOI\<close> at the end of the range) and collects the events. This is the consumer's loop, not
  code of the backend. It terminates because \<open>num\<close> grows towards \<open>l\<close>.
\<close>

function drain_list :: "ledisListStream \<Rightarrow> stream_state \<Rightarrow> (event list \<times> error \<times> stream_state) outcome" where
  "drain_list self s =
     (case Next self s of
        Done (Inr e, self', s') \<Rightarrow>
          (case drain_list self' s' of
             Done (es, err, s'') \<Rightarrow> Done (e # es, err, s'')
           | Blocked \<Rightarrow> Blocked
           | Crashed \<Rightarrow> Crashed)
      | Done (Inl err, self', s') \<Rightarrow> Done ([], err, s')
      | Blocked \<Rightarrow> Blocked
      | Crashed \<Rightarrow> Crashed)"
  by pat_completeness auto
termination
proof (relation "measure (\<lambda>(self, s). nat (sint (l self) - sint (num self)))", goal_cases)
  case 1
  show ?case by simp
next
  case (2 self s x1 x y e self' s')
  then have nx: "Next self s = Done (Inr e, self', s')" by simp
  then have lt: "\<not> l self \<le>s num self" and eq: "self' = self\<lparr>num := num self + 1\<rparr>"
    by (auto simp: Next_def split: if_splits option.splits prod.splits sum.splits)
  have a: "sint (num self) < sint (l self)" using lt by (simp add: word_sle_eq)
  have "sint (l self) < 2 ^ 31" using sint_lt [of "l self"] by simp
  then have hi: "sint (num self) + 1 < 2 ^ 31" using a by simp
  have "- (2 ^ 31) \<le> sint (num self)" using sint_ge [of "num self"] by simp
  then have lo: "- (2 ^ 31) \<le> sint (num self) + 1" by simp
  have "sint (num self + 1) = signed_take_bit 31 (sint (num self) + 1)"
    by (simp add: sint_word_ariths)
  also have "\<dots> = sint (num self) + 1"
    using lo hi by (rule signed_take_bit_int_eq_self)
  finally show ?case using a eq by simp
qed

declare drain_list.simps [simp del]

text \<open>
  Modelled from the spec: the \<open>Next\<close> of \<open>stream.Empty()\<close> is not among the sources; an
  "immediately-exhausted empty sequence" signals the end of the sequence at once and
  touches nothing.
\<close>

definition drain :: "stream \<Rightarrow> stream_state \<Rightarrow> (event list \<times> error \<times> stream_state) outcome" where
  "drain st s = (case st of Empty \<Rightarrow> Done ([], EOI, s) | ListStream self \<Rightarrow> drain_list self s)"

section \<open>The backend's table of handles\<close>

text \<open>
  \<open>ledisBackend.data\<close> maps a stream name to a pointer to its \<open>ledisStreamObj\<close>. The handles
  live in a store (\<open>objs\<close>); a pointer is an index into it, and constructing a handle appends
  to it. \<open>GetStream\<close> and \<open>release\<close> read and write only \<open>name\<close> and \<open>refcnt\<close> of a handle;
  \<open>okey\<close> is its \<open>key\<close> field and \<open>olock\<close> its \<open>delLock\<close> field. \<open>NewLedis\<close> is the backend as
  the constructor returns it once the engine is open.
\<close>

record ledisStreamObj =
  name :: string
  okey :: string
  olock :: rwmutex
  refcnt :: go_int

record ledisBackend =
  data :: "string \<Rightarrow> nat option"
  objs :: "ledisStreamObj list"

definition NewLedis :: ledisBackend where
  "NewLedis = \<lparr>data = Map.empty, objs = []\<rparr>"

definition GetStream :: "string \<Rightarrow> ledisBackend \<Rightarrow> nat \<times> ledisBackend" where
  "GetStream nm b =
     (let (v, b) =
        (case data b nm of
           Some v \<Rightarrow> (v, b)
         | None \<Rightarrow>
             (let v = length (objs b)
              in (v, b\<lparr>objs := objs b @ [\<lparr>name = nm, okey = nm,
                                          olock = \<lparr>readers = 0, writer = False\<rparr>, refcnt = 0\<rparr>],
                       data := (data b)(nm \<mapsto> v)\<rparr>)))
      in (v, b\<lparr>objs := (objs b)[v := (objs b ! v)\<lparr>refcnt := refcnt (objs b ! v) + 1\<rparr>]\<rparr>))"

definition release :: "nat \<Rightarrow> ledisBackend \<Rightarrow> ledisBackend" where
  "release s b =
     (let s' = (objs b ! s)\<lparr>refcnt := refcnt (objs b ! s) - 1\<rparr>;
          b = b\<lparr>objs := (objs b)[s := s']\<rparr>
      in if refcnt s' = 0 then b\<lparr>data := (data b)(name s' := None)\<rparr> else b)"

text \<open>
  The states a backend can reach: callers call \<open>GetStream\<close> with any name and \<open>release\<close> with
  any handle that \<open>GetStream\<close> has handed out, in any order. A \<open>release\<close> of anything else
  has no handle to work on (\<open>None\<close>).
\<close>

datatype op = OpGetStream string | OpRelease nat

fun step :: "op \<Rightarrow> ledisBackend \<Rightarrow> ledisBackend option" where
  "step (OpGetStream nm) b = Some (snd (GetStream nm b))"
| "step (OpRelease s) b = (if s < length (objs b) then Some (release s b) else None)"

fun run :: "op list \<Rightarrow> ledisBackend \<Rightarrow> ledisBackend option" where
  "run [] b = Some b"
| "run (x # xs) b = (case step x b of None \<Rightarrow> None | Some b' \<Rightarrow> run xs b')"

text \<open>
  What holds in every such state: a handle in the table is in the store, carries the name
  it is filed under and has a positive count; a handle outside the table has a count of
  zero or less; after \<open>n\<close> calls no count is further than \<open>n\<close> from zero.
\<close>

definition table_ok :: "ledisBackend \<Rightarrow> bool" where
  "table_ok b \<longleftrightarrow>
     (\<forall>nm a. data b nm = Some a \<longrightarrow>
        a < length (objs b) \<and> name (objs b ! a) = nm \<and> 0 < sint (refcnt (objs b ! a)))"

definition evicted_ok :: "ledisBackend \<Rightarrow> bool" where
  "evicted_ok b \<longleftrightarrow>
     (\<forall>a < length (objs b). data b (name (objs b ! a)) \<noteq> Some a \<longrightarrow> sint (refcnt (objs b ! a)) \<le> 0)"

definition counts_within :: "nat \<Rightarrow> ledisBackend \<Rightarrow> bool" where
  "counts_within n b \<longleftrightarrow>
     (\<forall>a < length (objs b). - int n \<le> sint (refcnt (objs b ! a)) \<and> sint (refcnt (objs b ! a)) \<le> int n)"

section \<open>The registry of backend creators\<close>

text \<open>
  A \<open>BackendCreator\<close> takes the configuration value and returns a backend or an error. The
  package variable \<open>backends\<close> is \<open>None\<close> while it is Go's nil map; reading a nil map finds
  nothing. \<open>quoted\<close> puts its argument between double quotes, as the two format strings do.
\<close>

type_synonym ('a, 'b) BackendCreator = "'a \<Rightarrow> error + 'b"

type_synonym ('a, 'b) registry = "(string \<Rightarrow> ('a, 'b) BackendCreator option) option"

definition quoted :: "string \<Rightarrow> string" where
  "quoted s = CHR 0x22 # s @ [CHR 0x22]"

definition RegisterCreator ::
  "string \<Rightarrow> ('a, 'b) BackendCreator \<Rightarrow> ('a, 'b) registry \<Rightarrow> error option \<times> ('a, 'b) registry" where
  "RegisterCreator btype creator backends =
     (let backends = (case backends of None \<Rightarrow> Map.empty | Some m \<Rightarrow> m)
      in case backends btype of
           Some r \<Rightarrow>
             (Some (ErrorString
                (''RegisterCreator: there already is backend creator for type '' @ quoted btype)),
              Some backends)
         | None \<Rightarrow> (None, Some (backends(btype \<mapsto> creator))))"

definition Create :: "string \<Rightarrow> 'a \<Rightarrow> ('a, 'b) registry \<Rightarrow> error + 'b" where
  "Create btype args backends =
     (case (case backends of None \<Rightarrow> None | Some m \<Rightarrow> m btype) of
        None \<Rightarrow> Inl (ErrorString (''Create: no backend type '' @ quoted btype))
      | Some r \<Rightarrow> r args)"

section \<open>Test fixtures and observers\<close>

text \<open>
  A handle's state as tests set it up: the key \<open>k\<close> holds \<open>xs\<close>, every other key is empty,
  the engine fails as \<open>fs\<close> says, nobody holds the lock, nothing is logged. \<open>never\<close> is the
  engine that does not fail, \<open>fail_at i m\<close> the one whose call number \<open>i\<close> fails with \<open>m\<close>.
\<close>

definition fresh_state :: "string \<Rightarrow> event list \<Rightarrow> (nat \<Rightarrow> string option) \<Rightarrow> stream_state" where
  "fresh_state k xs fs =
     \<lparr>db = \<lparr>lists = (\<lambda>k'. if k' = k then xs else []), faults = fs, calls = 0\<rparr>,
      delLock = \<lparr>readers = 0, writer = False\<rparr>,
      logged = []\<rparr>"

definition never :: "nat \<Rightarrow> string option" where
  "never n = None"

definition fail_at :: "nat \<Rightarrow> string \<Rightarrow> nat \<Rightarrow> string option" where
  "fail_at i m n = (if n = i then Some m else None)"

text \<open>What a call returned, and the state, the stream and the lock it left behind.\<close>

definition returned :: "('r \<times> stream_state) outcome \<Rightarrow> 'r option" where
  "returned out = (case out of Done (r, s) \<Rightarrow> Some r | Blocked \<Rightarrow> None | Crashed \<Rightarrow> None)"

definition state_after :: "('r \<times> stream_state) outcome \<Rightarrow> stream_state option" where
  "state_after out = (case out of Done (r, s) \<Rightarrow> Some s | Blocked \<Rightarrow> None | Crashed \<Rightarrow> None)"

definition stream_after :: "string \<Rightarrow> ('r \<times> stream_state) outcome \<Rightarrow> event list option" where
  "stream_after k out = map_option (\<lambda>s. lists (db s) k) (state_after out)"

definition readers_after :: "('r \<times> stream_state) outcome \<Rightarrow> nat option" where
  "readers_after out = map_option (\<lambda>s. readers (delLock s)) (state_after out)"

section \<open>Facts about 64-bit and 32-bit values\<close>

lemma sint_uint64:
  fixes w :: "64 word"
  assumes "uint w < 2 ^ 63"
  shows "sint w = uint w"
proof -
  have "- (2 ^ 63) \<le> (0::int)" by simp
  also have "0 \<le> uint w" by simp
  finally have "signed_take_bit 63 (uint w) = uint w"
    using assms by (intro signed_take_bit_int_eq_self)
  then show ?thesis by (simp add: sint_uint)
qed

lemma sint_of_nat64:
  assumes "n < 2 ^ 63"
  shows "sint (of_nat n :: 64 word) = int n"
proof -
  have "signed_take_bit 63 (int n) = int n"
    using assms by (simp add: signed_take_bit_int_eq_self_iff)
  then show ?thesis by (simp add: signed_of_nat)
qed

lemma sint_add64:
  fixes a b :: "64 word"
  assumes "- (2 ^ 63) \<le> sint a + sint b" "sint a + sint b < 2 ^ 63"
  shows "sint (a + b) = sint a + sint b"
  using assms by (simp add: sint_word_ariths signed_take_bit_int_eq_self)

lemma sint_sub64:
  fixes a b :: "64 word"
  assumes "- (2 ^ 63) \<le> sint a - sint b" "sint a - sint b < 2 ^ 63"
  shows "sint (a - b) = sint a - sint b"
  using assms by (simp add: sint_word_ariths signed_take_bit_int_eq_self)

lemma sint_ucast32:
  fixes w :: "64 word"
  assumes "- (2 ^ 31) \<le> sint w" "sint w < 2 ^ 31"
  shows "sint (ucast w :: 32 word) = sint w"
proof -
  have "sint (ucast w :: 32 word) = signed_take_bit 31 (uint w)"
    using signed_ucast_eq [where ?'a = int and ?'c = 32, of w] by simp
  also have "\<dots> = signed_take_bit 31 (signed_take_bit 63 (uint w))"
    by simp
  also have "\<dots> = signed_take_bit 31 (sint w)" by (simp add: sint_uint)
  also have "\<dots> = sint w" using assms by (simp add: signed_take_bit_int_eq_self_iff)
  finally show ?thesis .
qed

lemma of_nat64_eq_0:
  assumes "n < 2 ^ 64"
  shows "(of_nat n :: 64 word) = 0 \<longleftrightarrow> n = 0"
proof (cases "n = 0")
  case True
  then show ?thesis by simp
next
  case False
  then have "(of_nat n :: 64 word) \<noteq> 0" using assms by (intro of_nat_neq_0) simp_all
  then show ?thesis using False by simp
qed

lemma sint_of_nat32:
  assumes "n < 2 ^ 31"
  shows "sint (of_nat n :: 32 word) = int n"
proof -
  have "signed_take_bit 31 (int n) = int n"
    using assms by (simp add: signed_take_bit_int_eq_self_iff)
  then show ?thesis by (simp add: signed_of_nat)
qed

lemma ucast_of_nat_64_32:
  assumes "n < 2 ^ 64"
  shows "(ucast (of_nat n :: 64 word) :: 32 word) = of_nat n"
  using assms by (simp add: unsigned_of_nat take_bit_nat_eq_self)

lemma sint_inc:
  fixes r :: "64 word"
  assumes "sint r \<le> int n" "Suc n < 2 ^ 63"
  shows "sint (r + 1) = sint r + 1"
proof -
  have "int (Suc n) < 2 ^ 63" using assms(2) by (metis of_nat_less_numeral_power_cancel_iff)
  then have "sint r + sint (1 :: 64 word) < 2 ^ 63" using assms(1) by simp
  moreover have "- (2 ^ 63) \<le> sint r + sint (1 :: 64 word)" using sint_ge [of r] by simp
  ultimately have "sint (r + 1) = sint r + sint (1 :: 64 word)" by (rule sint_add64 [rotated])
  then show ?thesis by simp
qed

lemma sint_dec:
  fixes r :: "64 word"
  assumes "- int n \<le> sint r" "Suc n < 2 ^ 63"
  shows "sint (r - 1) = sint r - 1"
proof -
  have "int (Suc n) < 2 ^ 63" using assms(2) by (metis of_nat_less_numeral_power_cancel_iff)
  then have "- (2 ^ 63) \<le> sint r - sint (1 :: 64 word)" using assms(1) by simp
  moreover have "sint r - sint (1 :: 64 word) < 2 ^ 63" using sint_lt [of r] by simp
  ultimately have "sint (r - 1) = sint r - sint (1 :: 64 word)" by (rule sint_sub64)
  then show ?thesis by simp
qed

lemma dec_zero_iff:
  fixes r :: "64 word"
  shows "r - 1 = 0 \<longleftrightarrow> sint r = 1"
proof
  assume "r - 1 = 0"
  then have "r = 1" by simp
  then show "sint r = 1" by simp
next
  assume "sint r = 1"
  then have "sint r = sint (1 :: 64 word)" by simp
  then have "r = 1" by (rule signed_word_eqI)
  then show "r - 1 = 0" by simp
qed


lemmas engine_defs = LLen_def LIndex_def LRange_def LTrim_def LClear_def RPush_def fault_def tick_def
lemmas observer_defs = returned_def state_after_def stream_after_def readers_after_def

section \<open>Empty ranges\<close>

text \<open>
  Claim C6. For every \<open>x\<close> (the same 64 bits given as the unsigned \<open>from\<close> and as the
  signed \<open>to\<close>, which covers every number that is both a \<open>uint\<close> and an \<open>int\<close>) and every
  state of the stream, the empty one included: \<open>Read(x, x)\<close> returns the empty sequence
  and leaves the whole state as it was, so it has taken no lock and issued no engine
  command; \<open>Del(x, x)\<close> returns \<open>(true, nil)\<close> and leaves the whole state as it was.
\<close>

theorem Read_Del_same_bounds_noop:
  "Read key x x s = Done (Inr Empty, s) \<and> Del key x x s = Done ((True, None), s)"
  by (simp add: Read_def Del_def)

theorem Read_Del_same_bounds_noop_witness:
  "Read ''s'' 7 7 (fresh_state ''s'' [] never) = Done (Inr Empty, fresh_state ''s'' [] never)
   \<and> Del ''s'' 7 7 (fresh_state ''s'' [] never) = Done ((True, None), fresh_state ''s'' [] never)"
  by (rule Read_Del_same_bounds_noop)


section \<open>Negative offsets\<close>

text \<open>
  Claim C7. For every \<open>from\<close> (unsigned, as Read and Del take it), \<open>to\<close> and \<open>length\<close> with
  \<open>from \<le> to \<le> length\<close>: normalizing \<open>(from, to - length - 1)\<close> against \<open>length\<close> gives the
  same pair as normalizing \<open>(from, to)\<close>, namely \<open>(from, to)\<close> itself, and so the range check
  gives the same answer on both.
\<close>

theorem normalize_negative_offset:
  fixes afrom ato len :: "64 word"
  assumes "uint afrom \<le> sint ato" and "sint ato \<le> sint len"
  shows "normalize len afrom (ato - len - 1) = normalize len afrom ato
    \<and> normalize len afrom ato = (afrom, ato)
    \<and> (case normalize len afrom (ato - len - 1) of (f, t) \<Rightarrow> checkRange f t len who)
        = (case normalize len afrom ato of (f, t) \<Rightarrow> checkRange f t len who)"
proof -
  have lt: "sint ato < 2 ^ 63" "sint len < 2 ^ 63"
    using sint_lt [of ato] sint_lt [of len] by simp_all
  have "uint afrom < 2 ^ 63" using assms(1) lt(1) by linarith
  then have f0: "sint afrom = uint afrom" by (rule sint_uint64)
  have t0: "0 \<le> sint ato" using assms(1) uint_nonnegative [of afrom] by linarith
  have l0: "0 \<le> sint len" using t0 assms(2) by linarith
  have s1: "sint (ato - len) = sint ato - sint len"
    using t0 l0 lt assms(2) by (intro sint_sub64) simp_all
  have "sint (ato - len - 1) = sint (ato - len) - sint (1 :: 64 word)"
    using s1 t0 l0 lt assms(2) by (intro sint_sub64) simp_all
  then have s2: "sint (ato - len - 1) = sint ato - sint len - 1" using s1 by simp
  have neg: "ato - len - 1 <s 0" using s2 assms(2) by (simp add: word_sless_alt)
  have nf: "\<not> afrom <s 0" using f0 by (simp add: word_sless_alt)
  have nt: "\<not> ato <s 0" using t0 by (simp add: word_sless_alt)
  have a: "normalize len afrom (ato - len - 1) = (afrom, ato)"
    using neg nf by (simp add: normalize_def)
  have b: "normalize len afrom ato = (afrom, ato)"
    using nt nf by (simp add: normalize_def)
  show ?thesis by (simp add: a b)
qed

theorem normalize_negative_offset_witness:
  "uint (1 :: 64 word) \<le> sint (4 :: 64 word) \<and> sint (4 :: 64 word) \<le> sint (5 :: 64 word)
   \<and> normalize 5 1 (4 - 5 - 1) = normalize 5 1 4
   \<and> normalize 5 1 4 = (1, 4)
   \<and> checkRange 1 4 5 ''ledisStreamObj.Read'' = None"
proof -
  have h1: "uint (1 :: 64 word) \<le> sint (4 :: 64 word)" by simp
  have h2: "sint (4 :: 64 word) \<le> sint (5 :: 64 word)" by simp
  have c: "checkRange 1 4 5 ''ledisStreamObj.Read'' = None"
    by (simp add: checkRange_def word_sle_eq)
  show ?thesis
    using h1 h2 c normalize_negative_offset [OF h1 h2, of "''ledisStreamObj.Read''"] by simp
qed


section \<open>Clearing the whole stream\<close>

text \<open>
  Claim C5. \<open>Del(0, -1)\<close>, when the lock is free and the engine's clear command succeeds
  (the stream holding fewer than \<open>2^31\<close> events, the engine's bound on a list): on a
  non-empty stream it returns \<open>(true, nil)\<close>, on an empty one \<open>(false, nil)\<close>, and in both
  cases the stream is empty afterwards, the other keys and the lock are as before.
\<close>

theorem Del_whole_stream:
  assumes "readers (delLock s) = 0" and "\<not> writer (delLock s)"
    and "fault (db s) = None"
    and "length (lists (db s) key) < 2 ^ 31"
  shows "Del key 0 (- 1) s =
     Done ((lists (db s) key \<noteq> [], None),
           s\<lparr>db := tick ((db s)\<lparr>lists := (lists (db s))(key := [])\<rparr>)\<rparr>)"
proof -
  have "length (lists (db s) key) < 2 ^ 64" using assms(4) by simp
  then have z: "(of_nat (length (lists (db s) key)) :: 64 word) = 0 \<longleftrightarrow> lists (db s) key = []"
    by (simp add: of_nat64_eq_0)
  have lk: "(delLock s)\<lparr>writer := False\<rparr> = delLock s" using assms(2) by simp
  show ?thesis
    using assms(1,2,3) z
    by (simp add: Del_def Lock_def Unlock_def Del_locked_def Del_clear_def LClear_def fault_def tick_def lk)
qed

theorem Del_whole_stream_witness:
  "returned (Del ''s'' 0 (- 1) (fresh_state ''s'' [[1], [2], [3]] never)) = Some (True, None)
   \<and> stream_after ''s'' (Del ''s'' 0 (- 1) (fresh_state ''s'' [[1], [2], [3]] never)) = Some []
   \<and> readers_after (Del ''s'' 0 (- 1) (fresh_state ''s'' [[1], [2], [3]] never)) = Some 0
   \<and> returned (Del ''s'' 0 (- 1) (fresh_state ''s'' [] never)) = Some (False, None)
   \<and> stream_after ''s'' (Del ''s'' 0 (- 1) (fresh_state ''s'' [] never)) = Some []"
  using Del_whole_stream [of "fresh_state ''s'' [[1], [2], [3]] never" "''s''"]
    Del_whole_stream [of "fresh_state ''s'' [] never" "''s''"]
  by (simp add: fresh_state_def never_def fault_def tick_def observer_defs)

section \<open>Deleting a prefix\<close>

text \<open>
  Claim C1, at the stream \<open>[[1], [2], [3]]\<close> and the call \<open>Del(0, 1)\<close>, with the lock free and
  an engine that does not fail. Del asks the engine to keep the indices \<open>to - 1 = 0\<close> to \<open>3\<close>,
  so it returns \<open>(true, nil)\<close> and the stream still holds all three events; the suffix
  starting at \<open>to = 1\<close> is \<open>[[2], [3]]\<close>. The same with a negative bound: \<open>Del(0, -2)\<close>
  normalizes \<open>to\<close> to \<open>2\<close> and leaves \<open>[[2], [3]]\<close>, while the suffix starting at \<open>2\<close> is
  \<open>[[3]]\<close>.
\<close>

theorem Del_prefix_keeps_one_more:
  "returned (Del ''s'' 0 1 (fresh_state ''s'' [[1], [2], [3]] never)) = Some (True, None)
   \<and> stream_after ''s'' (Del ''s'' 0 1 (fresh_state ''s'' [[1], [2], [3]] never)) = Some [[1], [2], [3]]
   \<and> drop 1 [[1], [2], [3 :: 8 word]] = [[2], [3]]
   \<and> returned (Del ''s'' 0 (- 2) (fresh_state ''s'' [[1], [2], [3]] never)) = Some (True, None)
   \<and> stream_after ''s'' (Del ''s'' 0 (- 2) (fresh_state ''s'' [[1], [2], [3]] never)) = Some [[2], [3]]
   \<and> drop 2 [[1], [2], [3 :: 8 word]] = [[3]]"
  by (simp add: observer_defs fresh_state_def never_def Del_def Lock_def Unlock_def Del_locked_def
      LLen_def LTrim_def fault_def tick_def normalize_def word_sless_alt keep_range_def
      abs_index_def)

section \<open>The shared lock on the paths of Read that return no iterator\<close>

text \<open>
  Claim C4, at a stream of three events and the call \<open>Read(3, -1)\<close>: the raw bounds differ,
  \<open>to\<close> normalizes to \<open>3 + 1 - 1 = 3 = from\<close>, and Read returns the empty sequence. No reader
  held the lock before the call; one reader holds it afterwards, and the empty sequence
  has no way to release it.
\<close>

theorem Read_empty_after_normalize_keeps_lock:
  "readers (delLock (fresh_state ''s'' [[1], [2], [3]] never)) = 0
   \<and> returned (Read ''s'' 3 (- 1) (fresh_state ''s'' [[1], [2], [3]] never)) = Some (Inr Empty)
   \<and> readers_after (Read ''s'' 3 (- 1) (fresh_state ''s'' [[1], [2], [3]] never)) = Some 1"
  by (simp add: observer_defs fresh_state_def never_def Read_def RLock_def LLen_def fault_def
      tick_def normalize_def word_sless_alt)

text \<open>
  Claim C10. For every call \<open>Read(from, to)\<close> with raw \<open>from \<noteq> to\<close> on a lock that no writer
  holds: if the length query fails, Read returns the engine's error with one more reader
  on the lock than before; if the range check fails after normalization, Read returns its
  error, again with one more reader; and whenever Read returns an error at all, the lock
  has one more reader than before and every later Del with \<open>from \<noteq> to\<close> cannot take the lock.
\<close>

theorem Read_error_keeps_lock:
  assumes "afrom \<noteq> ato" and "\<not> writer (delLock s)"
  shows "(\<forall>m. fault (db s) = Some m \<longrightarrow>
            (\<exists>s'. Read key afrom ato s = Done (Inl (EngineError m), s')
                \<and> readers (delLock s') = Suc (readers (delLock s))))
    \<and> (\<forall>f t e. fault (db s) = None
            \<and> normalize (of_nat (length (lists (db s) key))) afrom ato = (f, t) \<and> f \<noteq> t
            \<and> checkRange f t (of_nat (length (lists (db s) key))) ''ledisStreamObj.Read'' = Some e \<longrightarrow>
            (\<exists>s'. Read key afrom ato s = Done (Inl e, s')
                \<and> readers (delLock s') = Suc (readers (delLock s))))
    \<and> (\<forall>e s'. Read key afrom ato s = Done (Inl e, s') \<longrightarrow>
            readers (delLock s') = Suc (readers (delLock s))
            \<and> (\<forall>k f t. f \<noteq> t \<longrightarrow> Del k f t s' = Blocked))"
proof (intro conjI allI impI)
  fix m
  assume "fault (db s) = Some m"
  then show "\<exists>s'. Read key afrom ato s = Done (Inl (EngineError m), s')
      \<and> readers (delLock s') = Suc (readers (delLock s))"
    using assms by (simp add: Read_def RLock_def LLen_def)
next
  fix f t e
  assume "fault (db s) = None
      \<and> normalize (of_nat (length (lists (db s) key))) afrom ato = (f, t) \<and> f \<noteq> t
      \<and> checkRange f t (of_nat (length (lists (db s) key))) ''ledisStreamObj.Read'' = Some e"
  then show "\<exists>s'. Read key afrom ato s = Done (Inl e, s')
      \<and> readers (delLock s') = Suc (readers (delLock s))"
    using assms by (simp add: Read_def RLock_def LLen_def)
next
  fix e s'
  assume r: "Read key afrom ato s = Done (Inl e, s')"
  then show rd: "readers (delLock s') = Suc (readers (delLock s))"
    using assms
    by (auto simp: Read_def RLock_def LLen_def Let_def
        split: option.splits prod.splits if_splits)
  fix k :: string and f t :: "64 word"
  assume "f \<noteq> t"
  then show "Del k f t s' = Blocked"
    using rd by (simp add: Del_def Lock_def)
qed

theorem Read_error_keeps_lock_witness:
  "returned (Read ''s'' 5 2 (fresh_state ''s'' [[1], [2], [3]] never))
     = Some (Inl (InvalidRange ''ledisStreamObj.Read''))
   \<and> readers_after (Read ''s'' 5 2 (fresh_state ''s'' [[1], [2], [3]] never)) = Some 1
   \<and> (\<exists>s'. state_after (Read ''s'' 5 2 (fresh_state ''s'' [[1], [2], [3]] never)) = Some s'
         \<and> Del ''s'' 0 1 s' = Blocked)
   \<and> returned (Read ''s'' 0 2 (fresh_state ''s'' [[1], [2], [3]] (fail_at 0 ''io error'')))
     = Some (Inl (EngineError ''io error''))
   \<and> readers_after (Read ''s'' 0 2 (fresh_state ''s'' [[1], [2], [3]] (fail_at 0 ''io error''))) = Some 1"
proof -
  let ?st = "fresh_state ''s'' [[1], [2], [3]] never"
  let ?st2 = "fresh_state ''s'' [[1], [2], [3]] (fail_at 0 ''io error'')"
  have h1: "(5 :: 64 word) \<noteq> 2" and h1': "(0 :: 64 word) \<noteq> 2" by simp_all
  have h2: "\<not> writer (delLock ?st)" and h2': "\<not> writer (delLock ?st2)"
    by (simp_all add: fresh_state_def)
  note th = Read_error_keeps_lock [OF h1 h2, of "''s''"]
  note th2 = Read_error_keeps_lock [OF h1' h2', of "''s''"]
  have "\<exists>s'. Read ''s'' 5 2 ?st = Done (Inl (InvalidRange ''ledisStreamObj.Read''), s')
      \<and> readers (delLock s') = Suc (readers (delLock ?st))"
    by (rule th [THEN conjunct2, THEN conjunct1, rule_format, of 5 2])
      (simp add: fresh_state_def never_def fault_def normalize_def word_sless_alt
        checkRange_def word_sle_eq)
  then obtain s' where r: "Read ''s'' 5 2 ?st = Done (Inl (InvalidRange ''ledisStreamObj.Read''), s')"
      "readers (delLock s') = Suc (readers (delLock ?st))"
    by blast
  have b: "Del ''s'' 0 1 s' = Blocked"
    using th [THEN conjunct2, THEN conjunct2, rule_format, OF r(1)] by simp
  have "\<exists>s'. Read ''s'' 0 2 ?st2 = Done (Inl (EngineError ''io error''), s')
      \<and> readers (delLock s') = Suc (readers (delLock ?st2))"
    by (rule th2 [THEN conjunct1, rule_format])
      (simp add: fresh_state_def fail_at_def fault_def)
  then obtain s2 where r2: "Read ''s'' 0 2 ?st2 = Done (Inl (EngineError ''io error''), s2)"
      "readers (delLock s2) = Suc (readers (delLock ?st2))"
    by blast
  have z: "readers (delLock ?st) = 0" "readers (delLock ?st2) = 0"
    by (simp_all add: fresh_state_def)
  show ?thesis
    using r b r2 z by (simp add: observer_defs)
qed

section \<open>Deleting a middle range\<close>

lemma keep_range_suffix:
  assumes "0 \<le> a" "a < int (length xs)" "int (length xs) \<le> b"
  shows "keep_range xs a b = drop (nat a) xs"
  using assms by (simp add: keep_range_def abs_index_def Let_def)

lemma keep_range_prefix:
  assumes "0 \<le> b" "b < int (length xs)"
  shows "keep_range xs 0 b = take (nat (b + 1)) xs"
  using assms by (simp add: keep_range_def abs_index_def Let_def)

lemma drain_list_all:
  assumes "n - i = d" "i \<le> n" "n \<le> length (lists (db s) k)" "length (lists (db s) k) < 2 ^ 31"
    and "readers (delLock s) \<noteq> 0"
    and "\<forall>j. faults (db s) j = None"
  shows "drain_list \<lparr>skey = k, num = of_nat i, l = of_nat n\<rparr> s =
     Done (take (n - i) (drop i (lists (db s) k)), EOI,
           s\<lparr>db := (db s)\<lparr>calls := calls (db s) + (n - i)\<rparr>,
             delLock := (delLock s)\<lparr>readers := readers (delLock s) - 1\<rparr>\<rparr>)"
  using assms
proof (induction d arbitrary: i s)
  case 0
  then have "i = n" by simp
  then have "Next \<lparr>skey = k, num = of_nat i, l = of_nat n\<rparr> s =
      Done (Inl EOI, \<lparr>skey = k, num = of_nat i, l = of_nat n\<rparr>,
        s\<lparr>delLock := (delLock s)\<lparr>readers := readers (delLock s) - 1\<rparr>\<rparr>)"
    using "0.prems" by (simp add: Next_def RUnlock_def)
  then show ?case using \<open>i = n\<close> by (subst drain_list.simps) simp
next
  case (Suc d)
  let ?xs = "lists (db s) k"
  have i: "i < n" "n < 2 ^ 31" "i < 2 ^ 31" "i < length ?xs" using Suc.prems by simp_all
  have si: "sint (of_nat i :: 32 word) = int i" and sn: "sint (of_nat n :: 32 word) = int n"
    using i by (simp_all add: sint_of_nat32)
  have lt: "\<not> (of_nat n :: 32 word) \<le>s of_nat i" using i si sn by (simp add: word_sle_eq)
  let ?s' = "s\<lparr>db := tick (db s)\<rparr>"
  have nx: "Next \<lparr>skey = k, num = of_nat i, l = of_nat n\<rparr> s =
      Done (Inr (?xs ! i), \<lparr>skey = k, num = of_nat (Suc i), l = of_nat n\<rparr>, ?s')"
    using lt si i Suc.prems(6) by (simp add: Next_def LIndex_def fault_def abs_index_def Let_def)
  have ih: "drain_list \<lparr>skey = k, num = of_nat (Suc i), l = of_nat n\<rparr> ?s' =
     Done (take (n - Suc i) (drop (Suc i) (lists (db ?s') k)), EOI,
           ?s'\<lparr>db := (db ?s')\<lparr>calls := calls (db ?s') + (n - Suc i)\<rparr>,
             delLock := (delLock ?s')\<lparr>readers := readers (delLock ?s') - 1\<rparr>\<rparr>)"
    using Suc.prems by (intro Suc.IH) (simp_all add: tick_def)
  have tk: "take (n - i) (drop i ?xs) = ?xs ! i # take (n - Suc i) (drop (Suc i) ?xs)"
    using i by (metis Cons_nth_drop_Suc Suc_diff_Suc take_Suc_Cons)
  have "drain_list \<lparr>skey = k, num = of_nat i, l = of_nat n\<rparr> s =
      Done (?xs ! i # take (n - Suc i) (drop (Suc i) (lists (db ?s') k)), EOI,
           ?s'\<lparr>db := (db ?s')\<lparr>calls := calls (db ?s') + (n - Suc i)\<rparr>,
             delLock := (delLock ?s')\<lparr>readers := readers (delLock ?s') - 1\<rparr>\<rparr>)"
    by (subst drain_list.simps) (simp only: nx ih outcome.case prod.case sum.case)
  then show ?case
    using i by (simp add: tk tick_def)
qed


lemma middle_range_facts:
  fixes f t :: "64 word"
  assumes "length xs < 2 ^ 31" "0 < sint f" "sint f < sint t" "sint t < int (length xs)"
  shows "checkRange f t (of_nat (length xs)) who = None"
    and "sint (ucast t :: 32 word) = sint t"
    and "sint (ucast (of_nat (length xs) :: 64 word) :: 32 word) = int (length xs)"
    and "sint (f - 1) = sint f - 1"
    and "f \<noteq> 0" and "t \<noteq> of_nat (length xs)" and "f \<noteq> t"
proof -
  have n: "int (length xs) < 2 ^ 31" using assms(1) by (metis of_nat_less_numeral_power_cancel_iff)
  have "length xs < 2 ^ 63" using assms(1) by simp
  then have L: "sint (of_nat (length xs) :: 64 word) = int (length xs)" by (rule sint_of_nat64)
  show "checkRange f t (of_nat (length xs)) who = None"
    using assms L by (simp add: checkRange_def word_sle_eq)
  show "sint (ucast t :: 32 word) = sint t"
    using assms n by (intro sint_ucast32) simp_all
  have "sint (ucast (of_nat (length xs) :: 64 word) :: 32 word) = sint (of_nat (length xs) :: 64 word)"
    using n L by (intro sint_ucast32) simp_all
  then show "sint (ucast (of_nat (length xs) :: 64 word) :: 32 word) = int (length xs)"
    using L by simp
  have "sint (f - 1) = sint f - sint (1 :: 64 word)"
    using assms n by (intro sint_sub64) simp_all
  then show "sint (f - 1) = sint f - 1" by simp
  show "f \<noteq> 0" using assms(2) by auto
  show "t \<noteq> of_nat (length xs)" using assms(4) L by auto
  show "f \<noteq> t" using assms(3) by auto
qed

lemma Del_middle_ok:
  assumes "lists (db s) key = xs" "length xs < 2 ^ 31"
    and "0 < sint f" "sint f < sint t" "sint t < int (length xs)"
    and "faults (db s) (calls (db s)) = None"
    and "faults (db s) (Suc (calls (db s))) = None"
    and "faults (db s) (Suc (Suc (calls (db s)))) = None"
  shows "Del_middle key f t (of_nat (length xs)) s =
    ((True, None),
     s\<lparr>db := (db s)\<lparr>lists := (lists (db s))(key := take (nat (sint f)) xs @ drop (nat (sint t)) xs),
                     calls := calls (db s) + 3\<rparr>\<rparr>)"
proof -
  note facts = middle_range_facts [OF assms(2-5)]
  have tail: "keep_range xs (sint t) (int (length xs)) = drop (nat (sint t)) xs"
    using assms(3-5) by (intro keep_range_suffix) simp_all
  have pre: "keep_range xs 0 (sint f - 1) = take (nat (sint f)) xs"
    using assms(3-5) keep_range_prefix [of "sint f - 1" xs] by simp
  show ?thesis
    using assms(1,6,7,8)
    by (simp add: Del_middle_def facts engine_defs tail pre)
qed

lemma Del_middle_rpush_fails:
  assumes "lists (db s) key = xs" "length xs < 2 ^ 31"
    and "0 < sint f" "sint f < sint t" "sint t < int (length xs)"
    and "faults (db s) (calls (db s)) = None"
    and "faults (db s) (Suc (calls (db s))) = None"
    and "faults (db s) (Suc (Suc (calls (db s)))) = Some m"
  shows "Del_middle key f t (of_nat (length xs)) s =
    ((False, Some (EngineError m)),
     s\<lparr>db := (db s)\<lparr>lists := (lists (db s))(key := take (nat (sint f)) xs),
                     calls := calls (db s) + 3\<rparr>,
       logged := logged s @
         [''ledisStreamObj.Del: WARNING: RPush failed, but Trim wasn't rolled back. Lost the data.'']\<rparr>)"
proof -
  note facts = middle_range_facts [OF assms(2-5)]
  have pre: "keep_range xs 0 (sint f - 1) = take (nat (sint f)) xs"
    using assms(3-5) keep_range_prefix [of "sint f - 1" xs] by simp
  show ?thesis
    using assms(1,6,7,8)
    by (simp add: Del_middle_def facts engine_defs pre)
qed

lemma normalize_zero:
  "normalize len 0 ato = (f, t) \<Longrightarrow> f = 0"
  by (auto simp: normalize_def Let_def word_sless_alt)

lemma normalize_same:
  "normalize len a a = (f, t) \<Longrightarrow> f = t"
  by (auto simp: normalize_def Let_def split: if_splits)

lemma Del_reaches_middle:
  assumes "readers (delLock s) = 0" "\<not> writer (delLock s)"
    and "faults (db s) (calls (db s)) = None"
    and "lists (db s) key = xs" "length xs < 2 ^ 31"
    and "normalize (of_nat (length xs)) afrom ato = (f, t)"
    and "0 < sint f" "sint f < sint t" "sint t < int (length xs)"
  shows "Del key afrom ato s =
    (case Del_middle key f t (of_nat (length xs)) (s\<lparr>delLock := (delLock s)\<lparr>writer := True\<rparr>, db := tick (db s)\<rparr>) of
       (r, s') \<Rightarrow> Done (r, s'\<lparr>delLock := Unlock (delLock s')\<rparr>))"
proof -
  note facts = middle_range_facts [OF assms(5,7,8,9)]
  have ne: "afrom \<noteq> ato" using assms(6) facts(7) normalize_same by blast
  have nz: "afrom \<noteq> 0" using assms(6) facts(5) normalize_zero by blast
  show ?thesis
    using assms(1-4) ne nz
    by (simp add: Del_def Lock_def Del_locked_def LLen_def fault_def assms(6) facts(5,6))
qed


lemma Read_whole_then_drain:
  assumes "readers (delLock s) = 0" "\<not> writer (delLock s)"
    and "\<forall>n. faults (db s) n = None"
    and "lists (db s) key = ys" "length ys < 2 ^ 31" "ys \<noteq> []"
  shows "\<exists>strm s3 s4. Read key 0 (of_nat (length ys)) s = Done (Inr strm, s3)
      \<and> drain strm s3 = Done (ys, EOI, s4)
      \<and> delLock s4 = delLock s \<and> lists (db s4) = lists (db s)"
proof -
  let ?L = "of_nat (length ys) :: 64 word"
  have n63: "length ys < 2 ^ 63" and n64: "length ys < 2 ^ 64" using assms(5) by simp_all
  have L: "sint ?L = int (length ys)" using n63 by (rule sint_of_nat64)
  have L0: "?L \<noteq> 0" using n64 assms(6) by (simp add: of_nat64_eq_0)
  have norm: "normalize ?L 0 ?L = (0, ?L)" using L by (simp add: normalize_def word_sless_alt)
  have chk: "checkRange 0 ?L ?L ''ledisStreamObj.Read'' = None"
    using L by (simp add: checkRange_def word_sle_eq)
  let ?s3 = "s\<lparr>db := tick (db s), delLock := (delLock s)\<lparr>readers := Suc 0\<rparr>\<rparr>"
  let ?it = "\<lparr>skey = key, num = of_nat 0, l = of_nat (length ys)\<rparr>"
  have rd: "Read key 0 ?L s = Done (Inr (ListStream ?it), ?s3)"
    using assms(1-4) L0 L0 [symmetric] norm chk n64
    by (simp add: Read_def RLock_def LLen_def fault_def ucast_of_nat_64_32)
  have dr: "drain_list ?it ?s3 =
     Done (take (length ys - 0) (drop 0 (lists (db ?s3) key)), EOI,
           ?s3\<lparr>db := (db ?s3)\<lparr>calls := calls (db ?s3) + (length ys - 0)\<rparr>,
             delLock := (delLock ?s3)\<lparr>readers := readers (delLock ?s3) - 1\<rparr>\<rparr>)"
    using assms(3-5) by (intro drain_list_all) (simp_all add: tick_def)
  let ?s4 = "?s3\<lparr>db := (db ?s3)\<lparr>calls := calls (db ?s3) + (length ys - 0)\<rparr>,
             delLock := (delLock ?s3)\<lparr>readers := readers (delLock ?s3) - 1\<rparr>\<rparr>"
  have d2: "drain (ListStream ?it) ?s3 = Done (ys, EOI, ?s4)"
    using dr assms(4) by (simp add: drain_def tick_def)
  have "(delLock s)\<lparr>readers := 0\<rparr> = delLock s" using assms(1) by simp
  then have lk: "delLock ?s4 = delLock s" by simp
  have ls: "lists (db ?s4) = lists (db s)" by (simp add: tick_def)
  show ?thesis
    using rd d2 lk ls by blast
qed

text \<open>
  Claim C2. A stream of \<open>L < 2^31\<close> events (the engine's bound on a list), the lock free, an
  engine that does not fail, and a call \<open>Del(from, to)\<close> whose bounds normalize to \<open>f\<close> and
  \<open>t\<close> with \<open>0 < f < t < L\<close>: Del returns \<open>(true, nil)\<close> after four engine commands and leaves
  under the key the old events \<open>[0, f)\<close> followed by the old events \<open>[t, L)\<close>, the other keys,
  the lock and the log being as before. Then \<open>Len\<close>, \<open>Read(0, length)\<close> and the iterator
  driven to exhaustion yield exactly those events and end with \<open>EOI\<close>, the lock being free
  again. On \<open>[e0, e1, e2, e3, e4]\<close> and \<open>Del(1, 4)\<close> that is \<open>[e0, e4]\<close>.
\<close>

theorem Del_middle_range:
  assumes "readers (delLock s) = 0" and "\<not> writer (delLock s)"
    and "\<forall>n. faults (db s) n = None"
    and "lists (db s) key = xs" and "length xs < 2 ^ 31"
    and "normalize (of_nat (length xs)) afrom ato = (f, t)"
    and "0 < sint f" and "sint f < sint t" and "sint t < int (length xs)"
  shows "let ys = take (nat (sint f)) xs @ drop (nat (sint t)) xs;
             s1 = s\<lparr>db := (db s)\<lparr>lists := (lists (db s))(key := ys), calls := calls (db s) + 4\<rparr>\<rparr>
         in Del key afrom ato s = Done ((True, None), s1)
            \<and> (\<exists>len s2 strm s3 s4.
                  Len key s1 = (Inr len, s2)
                  \<and> Read key 0 len s2 = Done (Inr strm, s3)
                  \<and> drain strm s3 = Done (ys, EOI, s4)
                  \<and> delLock s4 = delLock s \<and> lists (db s4) = lists (db s1))"
proof -
  let ?ys = "take (nat (sint f)) xs @ drop (nat (sint t)) xs"
  let ?s0 = "s\<lparr>delLock := (delLock s)\<lparr>writer := True\<rparr>, db := tick (db s)\<rparr>"
  let ?s1 = "s\<lparr>db := (db s)\<lparr>lists := (lists (db s))(key := ?ys), calls := calls (db s) + 4\<rparr>\<rparr>"
  have lk: "(delLock s)\<lparr>writer := False\<rparr> = delLock s" using assms(2) by simp
  have "Del_middle key f t (of_nat (length xs)) ?s0 =
    ((True, None),
     ?s0\<lparr>db := (db ?s0)\<lparr>lists := (lists (db ?s0))(key := ?ys), calls := calls (db ?s0) + 3\<rparr>\<rparr>)"
    using assms(3-5,7-9) by (intro Del_middle_ok) (simp_all add: tick_def)
  then have del: "Del key afrom ato s = Done ((True, None), ?s1)"
    using assms(3) Del_reaches_middle [OF assms(1,2) _ assms(4-9)]
    by (simp add: Unlock_def tick_def lk)
  let ?s2 = "?s1\<lparr>db := tick (db ?s1)\<rparr>"
  have len: "Len key ?s1 = (Inr (of_nat (length ?ys)), ?s2)"
    using assms(3) by (simp add: Len_def LLen_def fault_def)
  have ly: "length ?ys < 2 ^ 31" "?ys \<noteq> []" using assms(5,7-9) by auto
  have "\<exists>strm s3 s4. Read key 0 (of_nat (length ?ys)) ?s2 = Done (Inr strm, s3)
      \<and> drain strm s3 = Done (?ys, EOI, s4)
      \<and> delLock s4 = delLock ?s2 \<and> lists (db s4) = lists (db ?s2)"
    using assms(1-3) ly by (intro Read_whole_then_drain) (simp_all add: tick_def)
  then obtain strm s3 s4 where rd: "Read key 0 (of_nat (length ?ys)) ?s2 = Done (Inr strm, s3)"
      "drain strm s3 = Done (?ys, EOI, s4)" "delLock s4 = delLock ?s2" "lists (db s4) = lists (db ?s2)"
    by blast
  have "delLock s4 = delLock s" "lists (db s4) = lists (db ?s1)"
    using rd(3,4) by (simp_all add: tick_def)
  then show ?thesis
    unfolding Let_def using del len rd(1,2) by blast
qed


theorem Del_middle_range_witness:
  "returned (Del ''s'' 1 4 (fresh_state ''s'' [[0], [1], [2], [3], [4]] never)) = Some (True, None)
   \<and> stream_after ''s'' (Del ''s'' 1 4 (fresh_state ''s'' [[0], [1], [2], [3], [4]] never)) = Some [[0], [4]]
   \<and> (\<exists>s1 s2 strm s3 s4.
        state_after (Del ''s'' 1 4 (fresh_state ''s'' [[0], [1], [2], [3], [4]] never)) = Some s1
        \<and> Len ''s'' s1 = (Inr 2, s2)
        \<and> Read ''s'' 0 2 s2 = Done (Inr strm, s3)
        \<and> drain strm s3 = Done ([[0], [4]], EOI, s4)
        \<and> delLock s4 = \<lparr>readers = 0, writer = False\<rparr>)"
proof -
  let ?st = "fresh_state ''s'' [[0], [1], [2], [3], [4]] never"
  let ?s1 = "?st\<lparr>db := (db ?st)\<lparr>lists := (lists (db ?st))(''s'' := [[0], [4]]), calls := calls (db ?st) + 4\<rparr>\<rparr>"
  have "let ys = take (nat (sint (1 :: 64 word))) [[0], [1], [2], [3], [4]]
                 @ drop (nat (sint (4 :: 64 word))) [[0], [1], [2], [3], [4 :: 8 word]];
            s1 = ?st\<lparr>db := (db ?st)\<lparr>lists := (lists (db ?st))(''s'' := ys), calls := calls (db ?st) + 4\<rparr>\<rparr>
        in Del ''s'' 1 4 ?st = Done ((True, None), s1)
           \<and> (\<exists>len s2 strm s3 s4.
                 Len ''s'' s1 = (Inr len, s2)
                 \<and> Read ''s'' 0 len s2 = Done (Inr strm, s3)
                 \<and> drain strm s3 = Done (ys, EOI, s4)
                 \<and> delLock s4 = delLock ?st \<and> lists (db s4) = lists (db s1))"
    by (rule Del_middle_range)
      (simp_all add: fresh_state_def never_def normalize_def word_sless_alt)
  then obtain len s2 strm s3 s4 where
    d: "Del ''s'' 1 4 ?st = Done ((True, None), ?s1)"
    and r: "Len ''s'' ?s1 = (Inr len, s2)" "Read ''s'' 0 len s2 = Done (Inr strm, s3)"
      "drain strm s3 = Done ([[0], [4]], EOI, s4)" "delLock s4 = delLock ?st"
    by (auto simp: Let_def)
  have "len = 2"
    using r(1) by (auto simp: Len_def LLen_def fresh_state_def never_def fault_def split: option.splits)
  then show ?thesis
    using d r by (auto simp: observer_defs fresh_state_def)
qed

text \<open>
  Claim C3, as the code has it. In the middle-range case, when the length query, the read
  of the tail and the trim succeed and the re-append fails with the engine's message \<open>m\<close>:
  Del returns \<open>false\<close> and the engine's error as the engine gave it, the stream is left as
  the old prefix \<open>[0, f)\<close>, and one warning line is added to the process log.
\<close>

theorem Del_middle_reappend_fails:
  assumes "readers (delLock s) = 0" and "\<not> writer (delLock s)"
    and "lists (db s) key = xs" and "length xs < 2 ^ 31"
    and "normalize (of_nat (length xs)) afrom ato = (f, t)"
    and "0 < sint f" and "sint f < sint t" and "sint t < int (length xs)"
    and "faults (db s) (calls (db s)) = None"
    and "faults (db s) (calls (db s) + 1) = None"
    and "faults (db s) (calls (db s) + 2) = None"
    and "faults (db s) (calls (db s) + 3) = Some m"
  shows "Del key afrom ato s =
     Done ((False, Some (EngineError m)),
           s\<lparr>db := (db s)\<lparr>lists := (lists (db s))(key := take (nat (sint f)) xs),
                           calls := calls (db s) + 4\<rparr>,
             logged := logged s @
               [''ledisStreamObj.Del: WARNING: RPush failed, but Trim wasn't rolled back. Lost the data.'']\<rparr>)"
proof -
  let ?s0 = "s\<lparr>delLock := (delLock s)\<lparr>writer := True\<rparr>, db := tick (db s)\<rparr>"
  have lk: "(delLock s)\<lparr>writer := False\<rparr> = delLock s" using assms(2) by simp
  have "calls (db s) + 3 = Suc (Suc (Suc (calls (db s))))" by simp
  then have f3: "faults (db s) (Suc (Suc (Suc (calls (db s))))) = Some m"
    using assms(12) by (simp only:)
  have "Del_middle key f t (of_nat (length xs)) ?s0 =
    ((False, Some (EngineError m)),
     ?s0\<lparr>db := (db ?s0)\<lparr>lists := (lists (db ?s0))(key := take (nat (sint f)) xs),
                       calls := calls (db ?s0) + 3\<rparr>,
         logged := logged ?s0 @
           [''ledisStreamObj.Del: WARNING: RPush failed, but Trim wasn't rolled back. Lost the data.'']\<rparr>)"
    using assms(3,4,6-8,10,11) f3 by (intro Del_middle_rpush_fails) (simp_all add: tick_def)
  then show ?thesis
    using Del_reaches_middle [OF assms(1,2,9,3-8)]
    by (simp add: Unlock_def tick_def lk)
qed

theorem Del_middle_reappend_fails_witness:
  "returned (Del ''s'' 1 2 (fresh_state ''s'' [[0], [1], [2]] (fail_at 3 ''disk full'')))
     = Some (False, Some (EngineError ''disk full''))
   \<and> stream_after ''s'' (Del ''s'' 1 2 (fresh_state ''s'' [[0], [1], [2]] (fail_at 3 ''disk full'')))
     = Some [[0]]
   \<and> map_option logged (state_after (Del ''s'' 1 2 (fresh_state ''s'' [[0], [1], [2]] (fail_at 3 ''disk full''))))
     = Some [''ledisStreamObj.Del: WARNING: RPush failed, but Trim wasn't rolled back. Lost the data.'']"
proof -
  let ?st = "fresh_state ''s'' [[0], [1], [2]] (fail_at 3 ''disk full'')"
  have "Del ''s'' 1 2 ?st =
     Done ((False, Some (EngineError ''disk full'')),
           ?st\<lparr>db := (db ?st)\<lparr>lists := (lists (db ?st))(''s'' := take (nat (sint (1 :: 64 word))) [[0], [1], [2]]),
                           calls := calls (db ?st) + 4\<rparr>,
             logged := logged ?st @
               [''ledisStreamObj.Del: WARNING: RPush failed, but Trim wasn't rolled back. Lost the data.'']\<rparr>)"
    by (rule Del_middle_reappend_fails [where t = 2])
      (simp_all add: fresh_state_def fail_at_def normalize_def word_sless_alt)
  then show ?thesis
    by (simp add: observer_defs fresh_state_def)
qed

text \<open>
  Claim C3 as stated fails: on \<open>[[0], [1], [2]]\<close> and \<open>Del(1, 2)\<close>, a re-append that fails
  with "disk full" makes Del return \<open>(false, EngineError "disk full")\<close> with the tail lost,
  and a length query that fails with "disk full" makes Del return the very same value
  with nothing lost.
\<close>

theorem Del_reappend_error_is_engine_error:
  "returned (Del ''s'' 1 2 (fresh_state ''s'' [[0], [1], [2]] (fail_at 3 ''disk full'')))
     = Some (False, Some (EngineError ''disk full''))
   \<and> returned (Del ''s'' 1 2 (fresh_state ''s'' [[0], [1], [2]] (fail_at 0 ''disk full'')))
     = Some (False, Some (EngineError ''disk full''))
   \<and> stream_after ''s'' (Del ''s'' 1 2 (fresh_state ''s'' [[0], [1], [2]] (fail_at 3 ''disk full'')))
     = Some [[0]]
   \<and> stream_after ''s'' (Del ''s'' 1 2 (fresh_state ''s'' [[0], [1], [2]] (fail_at 0 ''disk full'')))
     = Some [[0], [1], [2]]"
  by (simp add: observer_defs fresh_state_def fail_at_def Del_def Lock_def Unlock_def Del_locked_def
      Del_middle_def checkRange_def word_sle_eq engine_defs normalize_def word_sless_alt
      keep_range_def abs_index_def)

section \<open>One handle per stream name\<close>

lemma table_okD:
  "table_ok b \<Longrightarrow> data b nm = Some a \<Longrightarrow>
     a < length (objs b) \<and> name (objs b ! a) = nm \<and> 0 < sint (refcnt (objs b ! a))"
  by (simp add: table_ok_def)

lemma evicted_okD:
  "evicted_ok b \<Longrightarrow> a < length (objs b) \<Longrightarrow> data b (name (objs b ! a)) \<noteq> Some a \<Longrightarrow>
     sint (refcnt (objs b ! a)) \<le> 0"
  by (simp add: evicted_ok_def)

lemma counts_withinD:
  "counts_within n b \<Longrightarrow> a < length (objs b) \<Longrightarrow>
     - int n \<le> sint (refcnt (objs b ! a)) \<and> sint (refcnt (objs b ! a)) \<le> int n"
  by (simp add: counts_within_def)

lemma GetStream_cached:
  assumes "data b nm = Some a"
  shows "GetStream nm b = (a, b\<lparr>objs := (objs b)[a := (objs b ! a)\<lparr>refcnt := refcnt (objs b ! a) + 1\<rparr>]\<rparr>)"
  using assms by (simp add: GetStream_def)

lemma GetStream_absent:
  assumes "data b nm = None"
  shows "GetStream nm b =
    (length (objs b),
     b\<lparr>objs := objs b @ [\<lparr>name = nm, okey = nm, olock = \<lparr>readers = 0, writer = False\<rparr>, refcnt = 1\<rparr>],
       data := (data b)(nm \<mapsto> length (objs b))\<rparr>)"
  using assms by (simp add: GetStream_def Let_def)

lemma release_data:
  "data (release a b) =
     (if refcnt (objs b ! a) - 1 = 0 then (data b)(name (objs b ! a) := None) else data b)"
  by (simp add: release_def Let_def)

lemma release_objs:
  "objs (release a b) = (objs b)[a := (objs b ! a)\<lparr>refcnt := refcnt (objs b ! a) - 1\<rparr>]"
  by (simp add: release_def Let_def)

lemma GetStream_absent_keeps:
  assumes "table_ok b" "evicted_ok b" "counts_within n b" "data b nm = None"
  shows "table_ok (snd (GetStream nm b)) \<and> evicted_ok (snd (GetStream nm b))
    \<and> counts_within (Suc n) (snd (GetStream nm b))"
proof -
  let ?new = "\<lparr>name = nm, okey = nm, olock = \<lparr>readers = 0, writer = False\<rparr>, refcnt = 1\<rparr>"
  let ?b = "b\<lparr>objs := objs b @ [?new], data := (data b)(nm \<mapsto> length (objs b))\<rparr>"
  have g: "snd (GetStream nm b) = ?b"
    using assms(4) by (simp add: GetStream_absent)
  have t: "table_ok ?b"
    unfolding table_ok_def
  proof (intro allI impI)
    fix nm' a
    assume d: "data ?b nm' = Some a"
    show "a < length (objs ?b) \<and> name (objs ?b ! a) = nm' \<and> 0 < sint (refcnt (objs ?b ! a))"
    proof (cases "nm' = nm")
      case True
      then have "a = length (objs b)" using d by simp
      then show ?thesis using True by simp
    next
      case False
      then have "data b nm' = Some a" using d by simp
      from table_okD [OF assms(1) this] show ?thesis by (simp add: nth_append)
    qed
  qed
  have e: "evicted_ok ?b"
    unfolding evicted_ok_def
  proof (intro allI impI)
    fix a
    assume a: "a < length (objs ?b)" and d: "data ?b (name (objs ?b ! a)) \<noteq> Some a"
    show "sint (refcnt (objs ?b ! a)) \<le> 0"
    proof (cases "a < length (objs b)")
      case True
      then have same: "objs ?b ! a = objs b ! a" by (simp add: nth_append)
      have "data b (name (objs b ! a)) \<noteq> Some a"
      proof (cases "name (objs b ! a) = nm")
        case True
        then show ?thesis using assms(4) by simp
      next
        case False
        then show ?thesis using d same by simp
      qed
      from evicted_okD [OF assms(2) True this] show ?thesis using same by simp
    next
      case False
      then have "a = length (objs b)" using a by simp
      then show ?thesis using d by simp
    qed
  qed
  have c: "counts_within (Suc n) ?b"
    unfolding counts_within_def
  proof (intro allI impI)
    fix a
    assume a: "a < length (objs ?b)"
    show "- int (Suc n) \<le> sint (refcnt (objs ?b ! a)) \<and> sint (refcnt (objs ?b ! a)) \<le> int (Suc n)"
    proof (cases "a < length (objs b)")
      case True
      from counts_withinD [OF assms(3) True] show ?thesis using True by (simp add: nth_append)
    next
      case False
      then have "a = length (objs b)" using a by simp
      then show ?thesis by simp
    qed
  qed
  show ?thesis using t e c by (simp only: g) 
qed

lemma GetStream_cached_keeps:
  assumes "table_ok b" "evicted_ok b" "counts_within n b" "Suc n < 2 ^ 63" "data b nm = Some v"
  shows "table_ok (snd (GetStream nm b)) \<and> evicted_ok (snd (GetStream nm b))
    \<and> counts_within (Suc n) (snd (GetStream nm b))"
proof -
  let ?o = "(objs b ! v)\<lparr>refcnt := refcnt (objs b ! v) + 1\<rparr>"
  let ?b = "b\<lparr>objs := (objs b)[v := ?o]\<rparr>"
  have g: "snd (GetStream nm b) = ?b"
    using assms(5) by (simp add: GetStream_cached)
  have v: "v < length (objs b)" "name (objs b ! v) = nm" "0 < sint (refcnt (objs b ! v))"
    using table_okD [OF assms(1,5)] by simp_all
  have bnd: "- int n \<le> sint (refcnt (objs b ! v))" "sint (refcnt (objs b ! v)) \<le> int n"
    using counts_withinD [OF assms(3) v(1)] by simp_all
  have inc: "sint (refcnt (objs b ! v) + 1) = sint (refcnt (objs b ! v)) + 1"
    using bnd(2) assms(4) by (rule sint_inc)
  have nm: "name (objs ?b ! a) = name (objs b ! a)" if "a < length (objs b)" for a
    using that by (cases "a = v") simp_all
  have t: "table_ok ?b"
    unfolding table_ok_def
  proof (intro allI impI)
    fix nm' a
    assume "data ?b nm' = Some a"
    then have d: "data b nm' = Some a" by simp
    from table_okD [OF assms(1) d] inc v
    show "a < length (objs ?b) \<and> name (objs ?b ! a) = nm' \<and> 0 < sint (refcnt (objs ?b ! a))"
      by (cases "a = v") auto
  qed
  have e: "evicted_ok ?b"
    unfolding evicted_ok_def
  proof (intro allI impI)
    fix a
    assume a: "a < length (objs ?b)" and d: "data ?b (name (objs ?b ! a)) \<noteq> Some a"
    have a': "a < length (objs b)" using a by simp
    have d': "data b (name (objs b ! a)) \<noteq> Some a" using d nm [OF a'] by simp
    then have "a \<noteq> v" using assms(5) v(2) by auto
    then show "sint (refcnt (objs ?b ! a)) \<le> 0"
      using evicted_okD [OF assms(2) a' d'] by simp
  qed
  have c: "counts_within (Suc n) ?b"
    unfolding counts_within_def
  proof (intro allI impI)
    fix a
    assume a: "a < length (objs ?b)"
    then have a': "a < length (objs b)" by simp
    from counts_withinD [OF assms(3) a'] inc bnd v(3)
    show "- int (Suc n) \<le> sint (refcnt (objs ?b ! a)) \<and> sint (refcnt (objs ?b ! a)) \<le> int (Suc n)"
      using a' by (cases "a = v") simp_all
  qed
  show ?thesis using t e c by (simp only: g)
qed

lemma release_keeps:
  assumes "table_ok b" "evicted_ok b" "counts_within n b" "Suc n < 2 ^ 63" "s < length (objs b)"
  shows "table_ok (release s b) \<and> evicted_ok (release s b) \<and> counts_within (Suc n) (release s b)"
proof -
  let ?r = "refcnt (objs b ! s)"
  let ?os = "(objs b)[s := (objs b ! s)\<lparr>refcnt := ?r - 1\<rparr>]"
  have bnd: "- int n \<le> sint ?r" "sint ?r \<le> int n"
    using counts_withinD [OF assms(3,5)] by simp_all
  have dec: "sint (?r - 1) = sint ?r - 1" using bnd(1) assms(4) by (rule sint_dec)
  have nm: "name (?os ! a) = name (objs b ! a)" if "a < length (objs b)" for a
    using that by (cases "a = s") simp_all
  have rc: "sint (refcnt (?os ! a)) = (if a = s then sint ?r - 1 else sint (refcnt (objs b ! a)))"
    if "a < length (objs b)" for a
    using that dec by (cases "a = s") simp_all
  have c: "counts_within (Suc n) (release s b)"
    unfolding counts_within_def release_objs
  proof (intro allI impI)
    fix a
    assume "a < length ?os"
    then have a': "a < length (objs b)" by simp
    from counts_withinD [OF assms(3) a'] bnd
    show "- int (Suc n) \<le> sint (refcnt (?os ! a)) \<and> sint (refcnt (?os ! a)) \<le> int (Suc n)"
      by (simp add: rc [OF a'] dec)
  qed
  have own: "data b (name (objs b ! s)) = Some s" if "0 < sint ?r"
    using evicted_okD [OF assms(2,5)] that by fastforce
  have t: "table_ok (release s b)"
    unfolding table_ok_def release_objs
  proof (intro allI impI)
    fix nm' a
    assume d: "data (release s b) nm' = Some a"
    then have d': "data b nm' = Some a"
      by (simp add: release_data split: if_splits)
    note old = table_okD [OF assms(1) d']
    have "0 < sint (refcnt (?os ! a))"
    proof (cases "a = s")
      case True
      then have "nm' = name (objs b ! s)" using old by simp
      then have "?r - 1 \<noteq> 0" using d by (auto simp: release_data split: if_splits)
      then have "sint ?r \<noteq> 1" using dec_zero_iff [of ?r] by simp
      then show ?thesis using old True by (simp add: rc dec)
    next
      case False
      then show ?thesis using old by (simp add: rc dec)
    qed
    then show "a < length ?os \<and> name (?os ! a) = nm' \<and> 0 < sint (refcnt (?os ! a))"
      using old by (simp add: nm)
  qed
  have e: "evicted_ok (release s b)"
    unfolding evicted_ok_def release_objs
  proof (intro allI impI)
    fix a
    assume "a < length ?os" and d: "data (release s b) (name (?os ! a)) \<noteq> Some a"
    then have a': "a < length (objs b)" by simp
    have d1: "data (release s b) (name (objs b ! a)) \<noteq> Some a" using d nm [OF a'] by simp
    show "sint (refcnt (?os ! a)) \<le> 0"
    proof (cases "a = s")
      case True
      show ?thesis
      proof (cases "?r - 1 = 0")
        case True
        then have "sint ?r = 1" using dec_zero_iff [of ?r] by simp
        then show ?thesis using \<open>a = s\<close> a' by (simp add: rc dec)
      next
        case False
        then have "data b (name (objs b ! s)) \<noteq> Some s" using d1 \<open>a = s\<close> by (simp add: release_data)
        then have "sint ?r \<le> 0" using own by fastforce
        then show ?thesis using \<open>a = s\<close> a' by (simp add: rc dec)
      qed
    next
      case False
      have "data b (name (objs b ! a)) \<noteq> Some a"
      proof
        assume in_table: "data b (name (objs b ! a)) = Some a"
        then have "name (objs b ! a) = name (objs b ! s)" "?r - 1 = 0"
          using d1 by (auto simp: release_data split: if_splits)
        then have "data b (name (objs b ! a)) = Some s"
          using own using dec_zero_iff [of ?r] by simp
        then show False using in_table False by simp
      qed
      from evicted_okD [OF assms(2) a' this] show ?thesis using False a' by (simp add: rc dec)
    qed
  qed
  show ?thesis using t e c by simp
qed

lemma step_keeps:
  assumes "table_ok b" "evicted_ok b" "counts_within n b" "Suc n < 2 ^ 63" "step x b = Some b'"
  shows "table_ok b' \<and> evicted_ok b' \<and> counts_within (Suc n) b'"
proof (cases x)
  case (OpGetStream nm)
  then have b': "b' = snd (GetStream nm b)" using assms(5) by simp
  show ?thesis
  proof (cases "data b nm")
    case None
    from GetStream_absent_keeps [OF assms(1-3) None] show ?thesis by (simp add: b')
  next
    case (Some v)
    from GetStream_cached_keeps [OF assms(1-4) Some] show ?thesis by (simp add: b')
  qed
next
  case (OpRelease s)
  then have "s < length (objs b)" "b' = release s b"
    using assms(5) by (auto split: if_splits)
  then show ?thesis using release_keeps [OF assms(1-4)] by simp
qed

lemma run_keeps:
  assumes "run xs b = Some b'" "table_ok b" "evicted_ok b" "counts_within n b" "n + length xs < 2 ^ 63"
  shows "table_ok b' \<and> evicted_ok b' \<and> counts_within (n + length xs) b'"
  using assms
proof (induction xs arbitrary: b n)
  case Nil
  then show ?case by simp
next
  case (Cons x xs)
  from Cons.prems(1) obtain b1 where s: "step x b = Some b1" and r: "run xs b1 = Some b'"
    by (auto split: option.splits)
  have "Suc n < 2 ^ 63" using Cons.prems(5) by simp
  from step_keeps [OF Cons.prems(2-4) this s]
  have k: "table_ok b1" "evicted_ok b1" "counts_within (Suc n) b1" by simp_all
  have "Suc n + length xs < 2 ^ 63" using Cons.prems(5) by simp
  from Cons.IH [OF r k this] show ?case by simp
qed

lemma NewLedis_ok: "table_ok NewLedis \<and> evicted_ok NewLedis \<and> counts_within 0 NewLedis"
  by (simp add: NewLedis_def table_ok_def evicted_ok_def counts_within_def)


text \<open>
  Claim C8. In every state that a backend reaches from \<open>NewLedis\<close> by fewer than \<open>2^63\<close>
  calls of \<open>GetStream\<close> and \<open>release\<close> (so that no reference count wraps around): two handles
  with the same name and a positive reference count are the same handle; for a name in
  the table \<open>GetStream\<close> returns the handle filed there, which carries that name, adds one
  to its count, constructs nothing and leaves the table alone; for a name not in the table
  it constructs a handle with count one and files it under the name; and \<open>release\<close> removes
  a table entry exactly when the decremented count is zero, the entry then being the
  released handle's own.
\<close>

theorem one_handle_per_name:
  assumes "run xs NewLedis = Some b" and "length xs < 2 ^ 63"
  shows "(\<forall>a a'. a < length (objs b) \<and> a' < length (objs b)
            \<and> name (objs b ! a) = name (objs b ! a')
            \<and> 0 <s refcnt (objs b ! a) \<and> 0 <s refcnt (objs b ! a') \<longrightarrow> a = a')
    \<and> (\<forall>nm v. data b nm = Some v \<longrightarrow>
          v < length (objs b) \<and> name (objs b ! v) = nm
          \<and> GetStream nm b =
              (v, b\<lparr>objs := (objs b)[v := (objs b ! v)\<lparr>refcnt := refcnt (objs b ! v) + 1\<rparr>]\<rparr>))
    \<and> (\<forall>nm. data b nm = None \<longrightarrow>
          GetStream nm b =
            (length (objs b),
             b\<lparr>objs := objs b @ [\<lparr>name = nm, okey = nm,
                                   olock = \<lparr>readers = 0, writer = False\<rparr>, refcnt = 1\<rparr>],
               data := (data b)(nm \<mapsto> length (objs b))\<rparr>))
    \<and> (\<forall>s. s < length (objs b) \<longrightarrow>
          data (release s b) =
            (if refcnt (objs b ! s) - 1 = 0 then (data b)(name (objs b ! s) := None) else data b)
          \<and> (refcnt (objs b ! s) - 1 = 0 \<longrightarrow> data b (name (objs b ! s)) = Some s))"
proof -
  have "table_ok NewLedis" "evicted_ok NewLedis" "counts_within 0 NewLedis"
    using NewLedis_ok by simp_all
  from run_keeps [OF assms(1) this] assms(2)
  have inv: "table_ok b" "evicted_ok b" by simp_all
  have own: "data b (name (objs b ! a)) = Some a"
    if "a < length (objs b)" "0 < sint (refcnt (objs b ! a))" for a
    using evicted_okD [OF inv(2) that(1)] that(2) by fastforce
  have one: "\<forall>a a'. a < length (objs b) \<and> a' < length (objs b)
            \<and> name (objs b ! a) = name (objs b ! a')
            \<and> 0 <s refcnt (objs b ! a) \<and> 0 <s refcnt (objs b ! a') \<longrightarrow> a = a'"
  proof (intro allI impI)
    fix a a'
    assume h: "a < length (objs b) \<and> a' < length (objs b)
            \<and> name (objs b ! a) = name (objs b ! a')
            \<and> 0 <s refcnt (objs b ! a) \<and> 0 <s refcnt (objs b ! a')"
    then have ha: "a < length (objs b)" "0 < sint (refcnt (objs b ! a))"
      and ha': "a' < length (objs b)" "0 < sint (refcnt (objs b ! a'))"
      by (simp_all add: word_sless_alt)
    have eq: "name (objs b ! a) = name (objs b ! a')" using h by blast
    have "Some a = data b (name (objs b ! a))" using own [OF ha] by (rule sym)
    also have "\<dots> = data b (name (objs b ! a'))" by (simp only: eq)
    also have "\<dots> = Some a'" by (rule own [OF ha'])
    finally show "a = a'" by (simp only: option.inject)
  qed
  have cached: "\<forall>nm v. data b nm = Some v \<longrightarrow>
          v < length (objs b) \<and> name (objs b ! v) = nm
          \<and> GetStream nm b =
              (v, b\<lparr>objs := (objs b)[v := (objs b ! v)\<lparr>refcnt := refcnt (objs b ! v) + 1\<rparr>]\<rparr>)"
    using table_okD [OF inv(1)] GetStream_cached by blast
  have absent: "\<forall>nm. data b nm = None \<longrightarrow>
          GetStream nm b =
            (length (objs b),
             b\<lparr>objs := objs b @ [\<lparr>name = nm, okey = nm,
                                   olock = \<lparr>readers = 0, writer = False\<rparr>, refcnt = 1\<rparr>],
               data := (data b)(nm \<mapsto> length (objs b))\<rparr>)"
    using GetStream_absent by blast
  have rel: "\<forall>s. s < length (objs b) \<longrightarrow>
          data (release s b) =
            (if refcnt (objs b ! s) - 1 = 0 then (data b)(name (objs b ! s) := None) else data b)
          \<and> (refcnt (objs b ! s) - 1 = 0 \<longrightarrow> data b (name (objs b ! s)) = Some s)"
  proof (intro allI impI conjI)
    fix s
    show "data (release s b) =
            (if refcnt (objs b ! s) - 1 = 0 then (data b)(name (objs b ! s) := None) else data b)"
      by (rule release_data)
    assume s: "s < length (objs b)" and "refcnt (objs b ! s) - 1 = 0"
    then have "sint (refcnt (objs b ! s)) = 1" using dec_zero_iff [of "refcnt (objs b ! s)"] by simp
    then show "data b (name (objs b ! s)) = Some s" using own [OF s] by simp
  qed
  show ?thesis using one cached absent rel by (intro conjI)
qed

theorem one_handle_per_name_witness:
  "(let xs = [OpGetStream ''a'', OpGetStream ''a'', OpGetStream ''b'', OpRelease 1, OpRelease 0,
              OpRelease 0, OpGetStream ''a''];
        b = \<lparr>data = [''a'' \<mapsto> 2],
             objs = [\<lparr>name = ''a'', okey = ''a'', olock = \<lparr>readers = 0, writer = False\<rparr>, refcnt = 0\<rparr>,
                     \<lparr>name = ''b'', okey = ''b'', olock = \<lparr>readers = 0, writer = False\<rparr>, refcnt = 0\<rparr>,
                     \<lparr>name = ''a'', okey = ''a'', olock = \<lparr>readers = 0, writer = False\<rparr>, refcnt = 1\<rparr>]\<rparr>
    in run xs NewLedis = Some b \<and> length xs < 2 ^ 63
       \<and> fst (GetStream ''a'' b) = 2
       \<and> fst (GetStream ''b'' b) = 3
       \<and> data (release 2 b) = (data b)(''a'' := None)
       \<and> data (release 0 b) = data b)"
proof -
  let ?xs = "[OpGetStream ''a'', OpGetStream ''a'', OpGetStream ''b'', OpRelease 1, OpRelease 0,
              OpRelease 0, OpGetStream ''a'']"
  let ?b = "\<lparr>data = [''a'' \<mapsto> 2],
             objs = [\<lparr>name = ''a'', okey = ''a'', olock = \<lparr>readers = 0, writer = False\<rparr>, refcnt = 0\<rparr>,
                     \<lparr>name = ''b'', okey = ''b'', olock = \<lparr>readers = 0, writer = False\<rparr>, refcnt = 0\<rparr>,
                     \<lparr>name = ''a'', okey = ''a'', olock = \<lparr>readers = 0, writer = False\<rparr>, refcnt = 1 :: 64 word\<rparr>]\<rparr>"
  have len: "length ?xs < 2 ^ 63" by simp
  have r: "run ?xs NewLedis = Some ?b"
    by (simp add: NewLedis_def GetStream_def release_def Let_def fun_eq_iff)
  note th = one_handle_per_name [OF r len]
  have a: "fst (GetStream ''a'' ?b) = 2"
    using th [THEN conjunct2, THEN conjunct1, rule_format, of "''a''" 2] by simp
  have b: "fst (GetStream ''b'' ?b) = 3"
    using th [THEN conjunct2, THEN conjunct2, THEN conjunct1, rule_format, of "''b''"] by simp
  have c: "data (release 2 ?b) = (data ?b)(''a'' := None)"
    using th [THEN conjunct2, THEN conjunct2, THEN conjunct2, rule_format, of 2] by simp
  have d: "data (release 0 ?b) = data ?b"
    using th [THEN conjunct2, THEN conjunct2, THEN conjunct2, rule_format, of 0] by simp
  show ?thesis unfolding Let_def using r len a b c d by (intro conjI)
qed

section \<open>Registering and creating backends\<close>

text \<open>
  Claim C9. Registering a creator under a type name that already has one returns the
  error "RegisterCreator: there already is backend creator for type ..." (the spec's
  \<open>DuplicateType\<close>) and leaves the table as it was; \<open>Create\<close> on a type name without a
  creator, the table being nil or not, returns the error "Create: no backend type ..."
  (the spec's \<open>UnknownType\<close>); otherwise \<open>Create\<close> returns what the registered creator
  returns on the given configuration value.
\<close>

theorem registry_errors:
  "(\<forall>m r. backends = Some m \<and> m btype = Some r \<longrightarrow>
       RegisterCreator btype creator backends =
         (Some (ErrorString
            (''RegisterCreator: there already is backend creator for type '' @ quoted btype)),
          backends))
   \<and> ((backends = None \<or> (\<exists>m. backends = Some m \<and> m btype = None)) \<longrightarrow>
       Create btype args backends = Inl (ErrorString (''Create: no backend type '' @ quoted btype)))
   \<and> (\<forall>m r. backends = Some m \<and> m btype = Some r \<longrightarrow> Create btype args backends = r args)"
  by (auto simp: RegisterCreator_def Create_def)

theorem registry_errors_witness:
  "(let (e1, reg1) = RegisterCreator ''mem'' (\<lambda>n :: nat. Inr (n + 1) :: error + nat) None;
        (e2, reg2) = RegisterCreator ''mem'' (\<lambda>n. Inr 0) reg1
    in e1 = None
       \<and> e2 = Some (ErrorString
            (''RegisterCreator: there already is backend creator for type '' @ quoted ''mem''))
       \<and> reg2 = reg1
       \<and> Create ''nil'' 5 reg1 = Inl (ErrorString (''Create: no backend type '' @ quoted ''nil''))
       \<and> Create ''mem'' 5 reg1 = Inr 6)"
proof -
  let ?c = "\<lambda>n :: nat. Inr (n + 1) :: error + nat"
  let ?reg1 = "Some [''mem'' \<mapsto> ?c]"
  have r1: "RegisterCreator ''mem'' ?c None = (None, ?reg1)"
    by (simp add: RegisterCreator_def)
  note th = registry_errors [where backends = ?reg1]
  have r2: "RegisterCreator ''mem'' (\<lambda>n. Inr 0) ?reg1 =
      (Some (ErrorString
         (''RegisterCreator: there already is backend creator for type '' @ quoted ''mem'')),
       ?reg1)"
    using th [where btype = "''mem''" and creator = "\<lambda>n. Inr 0", THEN conjunct1, rule_format,
        of "[''mem'' \<mapsto> ?c]" ?c]
    by simp
  have c1: "Create ''nil'' 5 ?reg1 = Inl (ErrorString (''Create: no backend type '' @ quoted ''nil''))"
    using th [where btype = "''nil''" and args = 5, THEN conjunct2, THEN conjunct1] by simp
  have c2: "Create ''mem'' 5 ?reg1 = Inr 6"
    using th [where btype = "''mem''" and args = 5, THEN conjunct2, THEN conjunct2, rule_format,
        of "[''mem'' \<mapsto> ?c]" ?c]
    by simp
  show ?thesis by (simp only: r1 r2 c1 c2 Let_def prod.case)
qed

end
